theory Spec2Isabelle
  imports Complex_Main
begin

section \<open>Knuth-Plass line breaking: a shallow embedding of knuth\_plass.cpp\<close>

text \<open>
  The development follows \<^verbatim>\<open>src/c++/knuth_plass.cpp\<close>. The C++ types
  \<^verbatim>\<open>float\<close>, \<^verbatim>\<open>double\<close> and \<^verbatim>\<open>long double\<close> are read as exact reals:
  every comparison and every arithmetic operation of the source is kept, rounding is not
  modelled. \<^verbatim>\<open>SuperULong\<close> positions, lines and indexes are natural numbers; they are
  bounded by the number of items, so the only place where the 64-bit wrap-around can be
  observed is the subtraction \<^verbatim>\<open>br->line - A->line\<close> of the looseness loop, where it is
  written out. Undefined behaviour and thrown exceptions of the source are values of
  the type \<open>error\<close>.
\<close>

subsection \<open>Data model\<close>

datatype SpecType = BOX | GLUE | PENALTY

text \<open>\<^verbatim>\<open>const unsigned int INF = 10000\<close>; the name \<open>INF\<close> is taken by the lattice
  syntax of HOL, hence the suffix.\<close>

definition INF_c :: nat where
  "INF_c = 10000"

text \<open>\<^verbatim>\<open>class Break\<close>. The nodes are immutable once constructed and are shared through
  \<^verbatim>\<open>std::shared_ptr\<close>; the field \<open>addr\<close> is the identity of the allocation (the value
  that pointer comparison compares), \<open>previous = None\<close> is the null pointer.\<close>

datatype Break = Break
  (addr: nat)
  (position: nat)
  (line: nat)
  (fitness_class: real)
  (demerits: real)
  (ratio: real)
  (previous: "Break option")

text \<open>\<^verbatim>\<open>class KnuthPlassParagraph<ValueType>\<close>: the seven parallel specification
  vectors, the result vector \<open>breaks\<close> and the three prefix-sum arrays (empty while the
  pointer is null).\<close>

record 'v KnuthPlassParagraph =
  type_v :: "SpecType list"
  width :: "real list"
  stretch :: "real list"
  shrink :: "real list"
  penalty :: "real list"
  flagged :: "bool list"
  value_v :: "'v list"
  breaks :: "Break list"
  sum_width :: "real list"
  sum_stretch :: "real list"
  sum_shrink :: "real list"

definition new_paragraph :: "'v KnuthPlassParagraph" where
  "new_paragraph =
     \<lparr> type_v = [], width = [], stretch = [], shrink = [], penalty = [], flagged = [],
       value_v = [], breaks = [], sum_width = [], sum_stretch = [], sum_shrink = [] \<rparr>"

datatype error =
    BackOnEmpty       \<comment> \<open>\<^verbatim>\<open>line_lengths->back()\<close> on an empty vector (undefined behaviour)\<close>
  | NullDeref         \<comment> \<open>\<^verbatim>\<open>A->previous\<close> on a null \<^verbatim>\<open>shared_ptr\<close> (undefined behaviour)\<close>
  | OutOfRange        \<comment> \<open>\<^verbatim>\<open>vector::at\<close> throws \<^verbatim>\<open>std::out_of_range\<close>\<close>
  | FloatToUnsigned   \<comment> \<open>a \<^verbatim>\<open>double\<close> outside the range of \<^verbatim>\<open>unsigned int\<close> is converted (undefined behaviour)\<close>

subsection \<open>Adding specifications to the paragraph\<close>

text \<open>The argument order is the one of the source: \<^verbatim>\<open>add_glue(shrink, width, stretch, value)\<close>.\<close>

definition add_glue :: "real \<Rightarrow> real \<Rightarrow> real \<Rightarrow> 'v \<Rightarrow> 'v KnuthPlassParagraph \<Rightarrow> 'v KnuthPlassParagraph" where
  "add_glue shrink' width' stretch' value' P =
     P \<lparr> type_v := type_v P @ [GLUE],
         shrink := shrink P @ [shrink'],
         width := width P @ [width'],
         stretch := stretch P @ [stretch'],
         value_v := value_v P @ [value'],
         penalty := penalty P @ [0],
         flagged := flagged P @ [False] \<rparr>"

definition add_penalty :: "real \<Rightarrow> real \<Rightarrow> bool \<Rightarrow> 'v \<Rightarrow> 'v KnuthPlassParagraph \<Rightarrow> 'v KnuthPlassParagraph" where
  "add_penalty width' penalty' flagged' value' P =
     P \<lparr> type_v := type_v P @ [PENALTY],
         width := width P @ [width'],
         penalty := penalty P @ [penalty'],
         flagged := flagged P @ [flagged'],
         value_v := value_v P @ [value'],
         shrink := shrink P @ [0],
         stretch := stretch P @ [0] \<rparr>"

definition add_box :: "real \<Rightarrow> 'v \<Rightarrow> 'v KnuthPlassParagraph \<Rightarrow> 'v KnuthPlassParagraph" where
  "add_box width' value' P =
     P \<lparr> type_v := type_v P @ [BOX],
         width := width P @ [width'],
         value_v := value_v P @ [value'],
         shrink := shrink P @ [0],
         stretch := stretch P @ [0],
         penalty := penalty P @ [0],
         flagged := flagged P @ [False] \<rparr>"

text \<open>A call of one of the three operations, and a sequence of calls applied in order.\<close>

datatype 'v add_call =
    AddBox real 'v
  | AddGlue real real real 'v
  | AddPenalty real real bool 'v

fun apply_call :: "'v KnuthPlassParagraph \<Rightarrow> 'v add_call \<Rightarrow> 'v KnuthPlassParagraph" where
  "apply_call P (AddBox w v) = add_box w v P"
| "apply_call P (AddGlue z w y v) = add_glue z w y v P"
| "apply_call P (AddPenalty w p f v) = add_penalty w p f v P"

definition build :: "'v add_call list \<Rightarrow> 'v KnuthPlassParagraph" where
  "build cs = foldl apply_call new_paragraph cs"

text \<open>The seven vectors are parallel: they have one entry per item.\<close>

definition aligned :: "'v KnuthPlassParagraph \<Rightarrow> bool" where
  "aligned P \<longleftrightarrow>
     length (width P) = length (type_v P) \<and>
     length (stretch P) = length (type_v P) \<and>
     length (shrink P) = length (type_v P) \<and>
     length (penalty P) = length (type_v P) \<and>
     length (flagged P) = length (type_v P) \<and>
     length (value_v P) = length (type_v P)"

subsection \<open>Prefix sums\<close>

text \<open>The loop \<^verbatim>\<open>for (i = 0; i < type.size(); i++)\<close> that populates the sums
  (lines 300--312): \<open>populate_sums P i\<close> is the state after \<open>i\<close> iterations, the three
  arrays filled so far and the three running sums.\<close>

fun populate_sums :: "'v KnuthPlassParagraph \<Rightarrow> nat \<Rightarrow> (real list \<times> real list \<times> real list) \<times> (real \<times> real \<times> real)" where
  "populate_sums P 0 = (([], [], []), (0, 0, 0))"
| "populate_sums P (Suc i) =
     (case populate_sums P i of
        ((sw, sy, sz), (width_sum, stretch_sum, shrink_sum)) \<Rightarrow>
          ((sw @ [width_sum], sy @ [stretch_sum], sz @ [shrink_sum]),
           (width_sum + width P ! i, stretch_sum + stretch P ! i, shrink_sum + shrink P ! i)))"

definition store_sums :: "'v KnuthPlassParagraph \<Rightarrow> 'v KnuthPlassParagraph" where
  "store_sums P =
     (case fst (populate_sums P (length (type_v P))) of
        (sw, sy, sz) \<Rightarrow> P \<lparr> sum_width := sw, sum_stretch := sy, sum_shrink := sz \<rparr>)"

subsection \<open>Set width, adjustment ratio, feasible breakpoints\<close>

text \<open>\<^verbatim>\<open>r_width\<close> (lines 145--148); \<^verbatim>\<open>at\<close> throws when the index is out of range.\<close>

definition r_width :: "'v KnuthPlassParagraph \<Rightarrow> nat \<Rightarrow> real \<Rightarrow> error + real" where
  "r_width P i ratio' =
     (if ratio' < 0 then
        (if i < length (width P) \<and> i < length (shrink P)
         then Inr (width P ! i - (ratio' * shrink P ! i)) else Inl OutOfRange)
      else
        (if i < length (width P) \<and> i < length (stretch P)
         then Inr (width P ! i + (ratio' * stretch P ! i)) else Inl OutOfRange))"

text \<open>\<^verbatim>\<open>compute_adjustment_ratio\<close> (lines 157--211). The sums are read from the paragraph,
  \<^verbatim>\<open>r = INF\<close> converts the unsigned constant to a \<^verbatim>\<open>double\<close>.\<close>

definition compute_adjustment_ratio :: "'v KnuthPlassParagraph \<Rightarrow> nat \<Rightarrow> nat \<Rightarrow> nat \<Rightarrow> real list \<Rightarrow> error + real" where
  "compute_adjustment_ratio P pos1 pos2 line' line_lengths =
     (case (if type_v P ! pos2 = PENALTY
            then (if pos2 < length (width P)
                  then Inr (sum_width P ! pos2 - sum_width P ! pos1 + width P ! pos2)
                  else Inl OutOfRange)
            else Inr (sum_width P ! pos2 - sum_width P ! pos1)) of
        Inl e \<Rightarrow> Inl e
      | Inr ideal_width \<Rightarrow>
         (case (if line' < length line_lengths then Inr (line_lengths ! line')
                else if line_lengths = [] then Inl BackOnEmpty
                else Inr (last line_lengths)) of
            Inl e \<Rightarrow> Inl e
          | Inr available_width \<Rightarrow>
              Inr (if ideal_width < available_width then
                     (let y = sum_stretch P ! pos2 - sum_stretch P ! pos1 in
                      if y > 0 then (available_width - ideal_width) / y else real INF_c)
                   else if ideal_width > available_width then
                     (let z = sum_shrink P ! pos2 - sum_shrink P ! pos1 in
                      if z > 0 then (available_width - ideal_width) / z else real INF_c)
                   else 0)))"

text \<open>\<^verbatim>\<open>is_feasible_breakpoint\<close> (lines 253--263).\<close>

definition is_feasible_breakpoint :: "'v KnuthPlassParagraph \<Rightarrow> nat \<Rightarrow> bool" where
  "is_feasible_breakpoint P i =
     (if type_v P ! i = PENALTY \<and> penalty P ! i < real INF_c then True
      else if i > 0 \<and> type_v P ! (i - 1) = BOX \<and> type_v P ! i = GLUE then True
      else False)"

subsection \<open>The list of active nodes\<close>

text \<open>\<^verbatim>\<open>add_active_node\<close> (lines 216--247). The first \<^verbatim>\<open>while\<close> loop counts the leading
  nodes whose line is smaller than the line of \<open>node\<close>; the second loop runs from there
  over the nodes of the same line and returns early on a node of the same fitness class.\<close>

fun find_insert_index :: "Break list \<Rightarrow> Break \<Rightarrow> nat" where
  "find_insert_index [] node = 0"
| "find_insert_index (a # as) node =
     (if line a < line node then Suc (find_insert_index as node) else 0)"

fun find_match :: "Break list \<Rightarrow> Break \<Rightarrow> bool" where
  "find_match [] node = False"
| "find_match (a # as) node =
     (if line a = line node then
        (if fitness_class a = fitness_class node \<and> line a = line node then True
         else find_match as node)
      else False)"

definition add_active_node :: "Break list \<Rightarrow> Break \<Rightarrow> Break list" where
  "add_active_node active_nodes node =
     (let insert_index = find_insert_index active_nodes node in
      if find_match (drop insert_index active_nodes) node then active_nodes
      else take insert_index active_nodes @ node # drop insert_index active_nodes)"

text \<open>The removal loop of the driver (lines 386--409): \<open>erase_node\<close> is the inner scan
  that erases the first entry pointing to the same object, \<open>deactivate\<close> the outer loop
  that stops as soon as a single active node is left.\<close>

fun erase_node :: "Break list \<Rightarrow> Break \<Rightarrow> Break list" where
  "erase_node [] break_node = []"
| "erase_node (a # as) break_node =
     (if addr a = addr break_node then as else a # erase_node as break_node)"

fun deactivate :: "Break list \<Rightarrow> Break list \<Rightarrow> Break list" where
  "deactivate active_nodes [] = active_nodes"
| "deactivate active_nodes (break_node # rest) =
     (if length active_nodes = 1 then active_nodes
      else deactivate (erase_node active_nodes break_node) rest)"

subsection \<open>Demerits and fitness class\<close>

text \<open>Lines 344--353, with \<^verbatim>\<open>std::pow\<close> at the exponents 3.0 and 2.0 read as powers.\<close>

definition base_demerits :: "real \<Rightarrow> real \<Rightarrow> real" where
  "base_demerits r p =
     (if p \<ge> 0 then 1 + 100 * (\<bar>r\<bar> ^ 3 + p) ^ 3
      else if p > real INF_c then 1 + 100 * (\<bar>r\<bar> ^ 3) ^ 2 - p ^ 2
      else 1 + 100 * (\<bar>r\<bar> ^ 3) ^ 2)"

text \<open>Lines 361--365.\<close>

definition fitness_of :: "real \<Rightarrow> real" where
  "fitness_of r =
     (if r < - 0.5 then 0 else if r \<le> 0.5 then 1 else if r \<le> 1 then 2 else 3)"

subsection \<open>The main loop\<close>

text \<open>The loop over the active nodes (lines 330--383) for one feasible breakpoint \<open>B\<close>.
  The list of active nodes is not changed while it runs; the state is the list of breaks
  to deactivate, the list of breaks to activate and the next free allocation.\<close>

fun scan_active :: "'v KnuthPlassParagraph \<Rightarrow> real list \<Rightarrow> real \<Rightarrow> real \<Rightarrow> real \<Rightarrow> nat \<Rightarrow>
    Break list \<Rightarrow> Break list \<times> Break list \<times> nat \<Rightarrow> error + (Break list \<times> Break list \<times> nat)" where
  "scan_active P line_lengths tolerance fitness_demerit flagged_demerit B [] st = Inr st"
| "scan_active P line_lengths tolerance fitness_demerit flagged_demerit B (A # rest)
       (breaks_to_deactivate, breaks_to_activate, fresh) =
     (case compute_adjustment_ratio P (position A) B (line A) line_lengths of
        Inl e \<Rightarrow> Inl e
      | Inr r \<Rightarrow>
         (let to_deactivate =
                (if r < - 1 \<or> penalty P ! B > real INF_c
                 then breaks_to_deactivate @ [A] else breaks_to_deactivate) in
          if - 1 \<le> r \<and> r \<le> tolerance then
            (let p = penalty P ! B;
                 demerits0 = base_demerits r p;
                 demerits1 = (if flagged P ! position A \<and> flagged P ! B
                              then demerits0 + flagged_demerit else demerits0);
                 fitness = fitness_of r;
                 demerits2 = (if \<bar>fitness - fitness_class A\<bar> > 1
                              then demerits1 + fitness_demerit else demerits1)
             in scan_active P line_lengths tolerance fitness_demerit flagged_demerit B rest
                  (to_deactivate,
                   breaks_to_activate @ [Break fresh B (line A + 1) fitness demerits2 r (Some A)],
                   Suc fresh))
          else scan_active P line_lengths tolerance fitness_demerit flagged_demerit B rest
                 (to_deactivate, breaks_to_activate, fresh)))"

text \<open>The first breakpoint, \<^verbatim>\<open>Break(0, 0, 1, 0, 0, nullptr)\<close>.\<close>

definition origin :: Break where
  "origin = Break 0 0 0 1 0 0 None"

text \<open>The loop over the items (lines 324--419): \<open>forward_pass \<dots> n\<close> is the list of
  active nodes (and the next free allocation) after the items \<open>0, \<dots>, n - 1\<close>.\<close>

fun forward_pass :: "'v KnuthPlassParagraph \<Rightarrow> real list \<Rightarrow> real \<Rightarrow> real \<Rightarrow> real \<Rightarrow> nat \<Rightarrow>
    error + (Break list \<times> nat)" where
  "forward_pass P line_lengths tolerance fitness_demerit flagged_demerit 0 = Inr ([origin], 1)"
| "forward_pass P line_lengths tolerance fitness_demerit flagged_demerit (Suc B) =
     (case forward_pass P line_lengths tolerance fitness_demerit flagged_demerit B of
        Inl e \<Rightarrow> Inl e
      | Inr (active_nodes, fresh) \<Rightarrow>
          if is_feasible_breakpoint P B then
            (case scan_active P line_lengths tolerance fitness_demerit flagged_demerit B
                    active_nodes ([], [], fresh) of
               Inl e \<Rightarrow> Inl e
             | Inr (breaks_to_deactivate, breaks_to_activate, fresh') \<Rightarrow>
                 Inr (foldl add_active_node (deactivate active_nodes breaks_to_deactivate)
                        breaks_to_activate, fresh'))
          else Inr (active_nodes, fresh))"

subsection \<open>Choosing the final node\<close>

text \<open>Lines 421--428: the first active node of the lowest demerits.\<close>

fun lowest_demerits :: "Break \<Rightarrow> Break list \<Rightarrow> Break" where
  "lowest_demerits A [] = A"
| "lowest_demerits A (n # ns) =
     lowest_demerits (if demerits n < demerits A then n else A) ns"

text \<open>The conversion of \<^verbatim>\<open>d = br->demerits\<close> from \<^verbatim>\<open>double\<close> to \<^verbatim>\<open>unsigned int\<close>: the
  value is truncated towards zero, and the behaviour is undefined when the truncated
  value is not an \<^verbatim>\<open>unsigned int\<close>.\<close>

definition to_unsigned :: "real \<Rightarrow> error + nat" where
  "to_unsigned x = (if - 1 < x \<and> x < 2 ^ 32 then Inr (nat \<lfloor>x\<rfloor>) else Inl FloatToUnsigned)"

text \<open>The looseness loop (lines 437--460). \<open>best\<close> is initialised to 0 before the loop
  and never assigned in it; \<open>delta\<close> is the difference of two 64-bit unsigned numbers.\<close>

fun loose_loop :: "real \<Rightarrow> Break \<Rightarrow> nat \<Rightarrow> Break list \<Rightarrow> nat \<Rightarrow> Break option \<Rightarrow> error + (nat \<times> Break option)" where
  "loose_loop looseness A best [] d b = Inr (d, b)"
| "loose_loop looseness A best (br # rest) d b =
     (let delta = nat ((int (line br) - int (line A)) mod 2 ^ 64) in
      if (looseness \<le> real delta \<and> delta < best) \<or> (best < delta \<or> real delta < looseness) then
        (case to_unsigned (demerits br) of
           Inl e \<Rightarrow> Inl e
         | Inr d' \<Rightarrow> loose_loop looseness A best rest d' (Some br))
      else if delta = best \<and> demerits br < real d then
        (case to_unsigned (demerits br) of
           Inl e \<Rightarrow> Inl e
         | Inr d' \<Rightarrow> loose_loop looseness A best rest d' (Some br))
      else loose_loop looseness A best rest d b)"

text \<open>Lines 465--471: the chain of \<^verbatim>\<open>previous\<close> pointers, the first breakpoint left out.\<close>

fun chain :: "Break \<Rightarrow> Break list" where
  "chain (Break a p l f d r None) = []"
| "chain (Break a p l f d r (Some prv)) = Break a p l f d r (Some prv) # chain prv"

text \<open>\<^verbatim>\<open>calc_knuth_plass_breaks\<close> (lines 269--474). \<^verbatim>\<open>active_nodes.at(0)\<close> throws on an
  empty list, and \<^verbatim>\<open>A->previous\<close> is undefined when the looseness loop left \<open>b\<close> null.\<close>

definition select_node :: "Break list \<Rightarrow> real \<Rightarrow> error + Break" where
  "select_node active_nodes looseness =
     (case active_nodes of
        [] \<Rightarrow> Inl OutOfRange
      | a0 # _ \<Rightarrow>
         (let A = lowest_demerits a0 active_nodes in
          if looseness \<noteq> 0 then
            (case loose_loop looseness A 0 active_nodes INF_c None of
               Inl e \<Rightarrow> Inl e
             | Inr (d, None) \<Rightarrow> Inl NullDeref
             | Inr (d, Some b) \<Rightarrow> Inr b)
          else Inr A))"

definition calc_knuth_plass_breaks :: "'v KnuthPlassParagraph \<Rightarrow> real list \<Rightarrow> real \<Rightarrow> real \<Rightarrow> real \<Rightarrow> real \<Rightarrow>
    error + 'v KnuthPlassParagraph" where
  "calc_knuth_plass_breaks P line_lengths looseness tolerance fitness_demerit flagged_demerit =
     (let P' = store_sums P; m = length (type_v P) in
      case forward_pass P' line_lengths tolerance fitness_demerit flagged_demerit m of
        Inl e \<Rightarrow> Inl e
      | Inr (active_nodes, fresh) \<Rightarrow>
         (case select_node active_nodes looseness of
            Inl e \<Rightarrow> Inl e
          | Inr A \<Rightarrow> Inr (P' \<lparr> breaks := rev (chain A) \<rparr>)))"

text \<open>The forced break as \<^verbatim>\<open>make_simple_paragraph\<close> writes it, \<^verbatim>\<open>add_penalty(0, -INF, ...)\<close>
  (lines 504 and 521): \<open>INF\<close> is unsigned, so \<open>-INF\<close> is computed modulo \<open>2\<^sup>3\<^sup>2\<close>, which
  gives \<open>minus_INF_c\<close>. The parameter of \<^verbatim>\<open>add_penalty\<close> is a \<^verbatim>\<open>float\<close>: between \<open>2\<^sup>3\<^sup>1\<close> and
  \<open>2\<^sup>3\<^sup>2\<close> the floats are the multiples of 256, and the one nearest to \<open>minus_INF_c\<close>,
  the value that the penalty vector stores, is \<open>minus_INF_stored\<close>.\<close>

definition minus_INF_c :: nat where
  "minus_INF_c = (2 ^ 32 - INF_c) mod 2 ^ 32"

definition minus_INF_stored :: real where
  "minus_INF_stored = 4294957312"

subsection \<open>Predicates on the list of active nodes\<close>

text \<open>The pair that \<open>add_active_node\<close> compares, a list of nodes without two nodes of
  the same pair, and a list of nodes in ascending order of their lines.\<close>

definition key_of :: "Break \<Rightarrow> nat \<times> real" where
  "key_of n = (line n, fitness_class n)"

definition distinct_keys :: "Break list \<Rightarrow> bool" where
  "distinct_keys xs = distinct (map key_of xs)"

definition line_sorted :: "Break list \<Rightarrow> bool" where
  "line_sorted xs = sorted (map line xs)"

text \<open>Every break on the chain of \<open>n\<close> (the first breakpoint left out) has its ratio
  between \<open>-1\<close> and the tolerance.\<close>

definition ratios_ok :: "real \<Rightarrow> Break \<Rightarrow> bool" where
  "ratios_ok tol n = list_all (\<lambda>b. - 1 \<le> ratio b \<and> ratio b \<le> tol) (chain n)"

text \<open>The node \<open>n\<close> is the one that the loop over the active nodes constructs for the
  active node \<open>A\<close> at the breakpoint \<open>B\<close> (lines 342--381).\<close>

definition created_from :: "'v KnuthPlassParagraph \<Rightarrow> real list \<Rightarrow> real \<Rightarrow> real \<Rightarrow> real \<Rightarrow> nat \<Rightarrow> Break \<Rightarrow> Break \<Rightarrow> bool" where
  "created_from P ll tol fd fld B A n \<longleftrightarrow>
     position n = B \<and> line n = line A + 1 \<and> previous n = Some A \<and>
     - 1 \<le> ratio n \<and> ratio n \<le> tol \<and>
     compute_adjustment_ratio P (position A) B (line A) ll = Inr (ratio n) \<and>
     fitness_class n = fitness_of (ratio n) \<and>
     demerits n = base_demerits (ratio n) (penalty P ! B)
        + (if flagged P ! position A \<and> flagged P ! B then fld else 0)
        + (if \<bar>fitness_of (ratio n) - fitness_class A\<bar> > 1 then fd else 0)"

subsection \<open>Reference definitions\<close>

text \<open>The natural width and the prefix sum \<open>W\<close> in the words of the specification
  (section 4.2: a penalty contributes nothing to \<open>W\<close>), to be compared with
  \<open>sum_width\<close>.\<close>

definition natural_width_spec :: "'v KnuthPlassParagraph \<Rightarrow> nat \<Rightarrow> real" where
  "natural_width_spec P k = (if type_v P ! k = PENALTY then 0 else width P ! k)"

definition W_spec :: "'v KnuthPlassParagraph \<Rightarrow> nat \<Rightarrow> real" where
  "W_spec P i = (\<Sum>k<i. natural_width_spec P k)"

text \<open>The base demerits in the words of the specification (section 4.5), to be
  compared with \<open>base_demerits\<close>.\<close>

definition demerits_spec :: "real \<Rightarrow> real \<Rightarrow> real" where
  "demerits_spec r p =
     (if p \<ge> 0 then (1 + 100 * \<bar>r\<bar> ^ 3 + p) ^ 3
      else if p > - real INF_c then (1 + 100 * \<bar>r\<bar> ^ 3) ^ 2 - p ^ 2
      else (1 + 100 * \<bar>r\<bar> ^ 3) ^ 2)"

text \<open>The set width of a line in the words of the specification (section 8, round
  trip): the sum of the widths that \<open>r_width\<close> gives to the items \<open>a, \<dots>, b - 1\<close> at
  the ratio of the line.\<close>

definition line_set_width :: "'v KnuthPlassParagraph \<Rightarrow> nat \<Rightarrow> nat \<Rightarrow> real \<Rightarrow> real" where
  "line_set_width P a b ratio' =
     (\<Sum>i = a..<b. case r_width P i ratio' of Inr w \<Rightarrow> w | Inl e \<Rightarrow> 0)"

subsection \<open>Example paragraphs\<close>

text \<open>A penalty of width 1 (a hyphen), a box and a glue.\<close>

definition par_hyphen :: "unit KnuthPlassParagraph" where
  "par_hyphen = build [AddPenalty 1 0 True (), AddBox 1 (), AddGlue 0 0 0 ()]"

text \<open>A glue of stretch 5, a box of width 5 and a glue: on a line of length 10 the
  break at the last glue has ratio 1.\<close>

definition par_stretch :: "unit KnuthPlassParagraph" where
  "par_stretch = build [AddGlue 0 0 5 (), AddBox 5 (), AddGlue 0 0 0 ()]"

text \<open>A box, a glue and a forced break (penalty \<open>-INF\<close>).\<close>

definition par_forced :: "unit KnuthPlassParagraph" where
  "par_forced = build [AddBox 5 (), AddGlue 0 0 0 (), AddPenalty 0 (- 10000) False ()]"

text \<open>A box and a glue.\<close>

definition par_two :: "unit KnuthPlassParagraph" where
  "par_two = build [AddBox 5 (), AddGlue 0 0 0 ()]"

text \<open>The paragraphs below end with the three items that \<^verbatim>\<open>make_simple_paragraph\<close>
  appends (lines 519--521), the last penalty being \<open>-INF\<close> as a signed number:
  a penalty \<open>INF\<close>, a glue of stretch \<open>INF\<close> and a penalty \<open>-INF\<close>.\<close>

text \<open>Three boxes separated by glue of width, stretch and shrink 2. On lines of length
  13 the first line ends at the second glue and has to shrink, at ratio \<open>-1/2\<close>.\<close>

definition par_shrink :: "unit KnuthPlassParagraph" where
  "par_shrink = build [AddBox 6 (), AddGlue 2 2 2 (), AddBox 6 (), AddGlue 2 2 2 (), AddBox 11 (),
     AddPenalty 0 10000 False (), AddGlue 0 0 10000 (), AddPenalty 0 (- 10000) False ()]"

text \<open>Two words of width 10 and a glue of shrink 1, for lines of length 3.\<close>

definition par_wide :: "unit KnuthPlassParagraph" where
  "par_wide = build [AddBox 10 (), AddGlue 1 1 0 (), AddBox 10 (),
     AddPenalty 0 10000 False (), AddGlue 0 0 10000 (), AddPenalty 0 (- 10000) False ()]"

text \<open>Two words of two letters, every letter a box of width 1.\<close>

definition par_abcd :: "unit KnuthPlassParagraph" where
  "par_abcd = build [AddBox 1 (), AddBox 1 (), AddGlue 1 1 1 (), AddBox 1 (), AddBox 1 (),
     AddPenalty 0 10000 False (), AddGlue 0 0 10000 (), AddPenalty 0 (- 10000) True ()]"

text \<open>A box, a penalty of cost 5, a glue of shrink 1, a box of width 10 and a glue. On
  lines of length 5 the only node that survives is the break at the penalty, of
  demerits 12501.\<close>

definition par_costly :: "unit KnuthPlassParagraph" where
  "par_costly = build [AddBox 5 (), AddPenalty 0 5 False (), AddGlue 1 1 0 (), AddBox 10 (),
     AddGlue 0 0 0 ()]"

section \<open>Properties\<close>

lemmas build_simps = build_def add_box_def add_glue_def add_penalty_def new_paragraph_def

lemma real_INF_c: "real INF_c = 10000"
  by (simp add: INF_c_def)

lemmas run_simps = store_sums_def numeral_eq_Suc is_feasible_breakpoint_def
  compute_adjustment_ratio_def real_INF_c base_demerits_def fitness_of_def
  add_active_node_def origin_def

subsection \<open>The parallel vectors\<close>

lemma aligned_apply_call: "aligned P \<Longrightarrow> aligned (apply_call P c)"
  by (cases c) (simp_all add: aligned_def add_box_def add_glue_def add_penalty_def)

lemma length_apply_call: "length (type_v (apply_call P c)) = Suc (length (type_v P))"
  by (cases c) (simp_all add: add_box_def add_glue_def add_penalty_def)

lemma aligned_foldl: "aligned P \<Longrightarrow> aligned (foldl apply_call P cs)"
  by (induction cs arbitrary: P) (simp_all add: aligned_apply_call)

lemma length_foldl: "length (type_v (foldl apply_call P cs)) = length (type_v P) + length cs"
  by (induction cs arbitrary: P) (simp_all add: length_apply_call)

lemma aligned_build: "aligned (build cs)"
  unfolding build_def by (rule aligned_foldl) (simp add: aligned_def new_paragraph_def)

text \<open>C10: after any sequence of \<open>add_box\<close>, \<open>add_glue\<close> and \<open>add_penalty\<close> calls on a
  new paragraph the seven vectors have the same length (the number of calls); each of
  the three operations appends exactly one entry to each of the seven vectors, and the
  entry of a field that the variant does not use is 0 or false.\<close>

theorem parallel_vectors:
  "aligned (build cs) \<and> length (type_v (build cs)) = length cs \<and>
   type_v (add_box w v P) = type_v P @ [BOX] \<and>
   width (add_box w v P) = width P @ [w] \<and>
   stretch (add_box w v P) = stretch P @ [0] \<and>
   shrink (add_box w v P) = shrink P @ [0] \<and>
   penalty (add_box w v P) = penalty P @ [0] \<and>
   flagged (add_box w v P) = flagged P @ [False] \<and>
   value_v (add_box w v P) = value_v P @ [v] \<and>
   type_v (add_glue z w y v P) = type_v P @ [GLUE] \<and>
   width (add_glue z w y v P) = width P @ [w] \<and>
   stretch (add_glue z w y v P) = stretch P @ [y] \<and>
   shrink (add_glue z w y v P) = shrink P @ [z] \<and>
   penalty (add_glue z w y v P) = penalty P @ [0] \<and>
   flagged (add_glue z w y v P) = flagged P @ [False] \<and>
   value_v (add_glue z w y v P) = value_v P @ [v] \<and>
   type_v (add_penalty w p f v P) = type_v P @ [PENALTY] \<and>
   width (add_penalty w p f v P) = width P @ [w] \<and>
   stretch (add_penalty w p f v P) = stretch P @ [0] \<and>
   shrink (add_penalty w p f v P) = shrink P @ [0] \<and>
   penalty (add_penalty w p f v P) = penalty P @ [p] \<and>
   flagged (add_penalty w p f v P) = flagged P @ [f] \<and>
   value_v (add_penalty w p f v P) = value_v P @ [v]"
  by (simp add: aligned_build add_box_def add_glue_def add_penalty_def)
     (simp add: build_def length_foldl new_paragraph_def)

subsection \<open>The prefix sums\<close>

lemma populate_sums_width:
  "populate_sums P n = ((sw, sy, sz), (ws, ys, zs)) \<Longrightarrow>
   length sw = n \<and> (\<forall>i<n. sw ! i = (\<Sum>k<i. width P ! k)) \<and> ws = (\<Sum>k<n. width P ! k)"
proof (induction n arbitrary: sw sy sz ws ys zs)
  case 0
  then show ?case by simp
next
  case (Suc n)
  obtain sw0 sy0 sz0 ws0 ys0 zs0 where
    p: "populate_sums P n = ((sw0, sy0, sz0), (ws0, ys0, zs0))"
    by (metis prod_cases3)
  from Suc.IH [OF p] have ih: "length sw0 = n" "\<forall>i<n. sw0 ! i = (\<Sum>k<i. width P ! k)"
    "ws0 = (\<Sum>k<n. width P ! k)" by simp_all
  from Suc.prems p have eq: "sw = sw0 @ [ws0]" "ws = ws0 + width P ! n" by simp_all
  show ?case
    using ih eq by (auto simp: nth_append less_Suc_eq)
qed

text \<open>What the loop computes: every item, whatever its type, adds its width.\<close>

lemma sum_width_store_sums:
  assumes "i < length (type_v P)"
  shows "sum_width (store_sums P) ! i = (\<Sum>k<i. width P ! k)"
proof -
  obtain sw sy sz ws ys zs where
    p: "populate_sums P (length (type_v P)) = ((sw, sy, sz), (ws, ys, zs))"
    by (metis prod_cases3)
  from populate_sums_width [OF p] assms have "sw ! i = (\<Sum>k<i. width P ! k)" by simp
  with p show ?thesis by (simp add: store_sums_def)
qed

text \<open>C1 (the code departs from the claim): the claim is that a penalty adds nothing to
  the prefix sums \<open>W\<close> and that its width is measured only when it is the break at the
  right end of a line. In the paragraph \<open>par_hyphen\<close> item 0 is a penalty of width 1:
  the sums that \<open>calc_knuth_plass_breaks\<close> stores are \<open>[0, 1, 2]\<close>, where the
  specification's \<open>W\<close> is \<open>[0, 0, 1]\<close>, and the line from item 0 to the glue at item 2 is
  measured as 2, so that it fits a line of length 2 at ratio 0.\<close>

theorem penalty_width_in_prefix_sums:
  "type_v par_hyphen ! 0 = PENALTY \<and>
   map_sum id sum_width (calc_knuth_plass_breaks par_hyphen [2] 0 1 100 100) = Inr [0, 1, 2] \<and>
   map (W_spec par_hyphen) [0, 1, 2] = [0, 0, 1] \<and>
   compute_adjustment_ratio (store_sums par_hyphen) 0 2 0 [2] = Inr 0"
  by (simp add: par_hyphen_def build_simps calc_knuth_plass_breaks_def run_simps select_node_def
       W_spec_def natural_width_spec_def)

subsection \<open>The nodes that the search creates\<close>

lemma scan_active_created:
  "scan_active P ll tol fd fld B as (de, ac, f) = Inr (de', ac', f') \<Longrightarrow> n \<in> set ac' \<Longrightarrow>
   n \<in> set ac \<or> (\<exists>A\<in>set as. created_from P ll tol fd fld B A n)"
proof (induction as arbitrary: de ac f)
  case Nil
  then show ?case by simp
next
  case (Cons A as)
  from Cons.prems(1) obtain r where
    r: "compute_adjustment_ratio P (position A) B (line A) ll = Inr r"
    by (auto split: sum.splits)
  show ?case
  proof (cases "- 1 \<le> r \<and> r \<le> tol")
    case True
    let ?n = "Break f B (line A + 1) (fitness_of r)
        (let d0 = base_demerits r (penalty P ! B);
             d1 = (if flagged P ! position A \<and> flagged P ! B then d0 + fld else d0)
         in if \<bar>fitness_of r - fitness_class A\<bar> > 1 then d1 + fd else d1) r (Some A)"
    have new: "created_from P ll tol fd fld B A ?n"
      using r True by (simp add: created_from_def Let_def)
    from Cons.prems(1) r True obtain de0 where
      "scan_active P ll tol fd fld B as (de0, ac @ [?n], Suc f) = Inr (de', ac', f')"
      by (simp add: Let_def split: if_splits)
    from Cons.IH [OF this Cons.prems(2)]
    have "n \<in> set ac \<or> n = ?n \<or> (\<exists>A\<in>set as. created_from P ll tol fd fld B A n)"
      by auto
    with new show ?thesis
      by (metis list.set_intros(1) list.set_intros(2))
  next
    case False
    from Cons.prems(1) r False obtain de0 where
      "scan_active P ll tol fd fld B as (de0, ac, f) = Inr (de', ac', f')"
      by (simp add: Let_def split: if_splits)
    from Cons.IH [OF this Cons.prems(2)] show ?thesis
      by (metis list.set_intros(2))
  qed
qed

text \<open>C2 (the code departs from the claim): the claim is that the base demerits of a
  line of ratio \<open>r\<close> and penalty \<open>p\<close> are the three-branch reference value. At
  \<open>r = 1\<close> the code computes \<open>1 + 100 \<cdot> (|r|\<^sup>3 + p)\<^sup>3 = 101\<close> for \<open>p = 0\<close> where the
  reference value is \<open>1030301\<close>, and \<open>1 + 100 \<cdot> (|r|\<^sup>3)\<^sup>2 = 101\<close> for the penalties
  \<open>-50\<close> and \<open>-INF\<close> where the reference values are \<open>7701\<close> and \<open>10201\<close>; the node
  that the search creates in \<open>par_stretch\<close> carries the demerits 101.\<close>

theorem base_demerits_differ:
  "base_demerits 1 0 = 101 \<and> demerits_spec 1 0 = 1030301 \<and>
   base_demerits 1 (- 50) = 101 \<and> demerits_spec 1 (- 50) = 7701 \<and>
   base_demerits 1 (- 10000) = 101 \<and> demerits_spec 1 (- 10000) = 10201 \<and>
   forward_pass (store_sums par_stretch) [10] 1 100 100 3 =
     Inr ([origin, Break 1 2 1 2 101 1 (Some origin)], 2)"
  by (simp add: par_stretch_def build_simps run_simps demerits_spec_def)

subsection \<open>Forced breaks\<close>

lemma foldl_apply_call_penalty:
  "(\<forall>i<length (type_v P). type_v P ! i \<noteq> PENALTY \<longrightarrow> penalty P ! i = 0) \<Longrightarrow>
   aligned P \<Longrightarrow>
   \<forall>i<length (type_v (foldl apply_call P cs)).
      type_v (foldl apply_call P cs) ! i \<noteq> PENALTY \<longrightarrow> penalty (foldl apply_call P cs) ! i = 0"
proof (induction cs arbitrary: P)
  case Nil
  then show ?case by simp
next
  case (Cons c cs)
  have "aligned (apply_call P c)" using Cons.prems(2) by (rule aligned_apply_call)
  moreover have "\<forall>i<length (type_v (apply_call P c)).
      type_v (apply_call P c) ! i \<noteq> PENALTY \<longrightarrow> penalty (apply_call P c) ! i = 0"
    using Cons.prems
    by (cases c) (auto simp: add_box_def add_glue_def add_penalty_def aligned_def nth_append)
  ultimately show ?case using Cons.IH [of "apply_call P c"] by simp
qed

text \<open>In a paragraph built by the three operations the second disjunct of the
  deactivation test, \<^verbatim>\<open>penalty[B] > INF\<close>, is false at every feasible breakpoint.\<close>

lemma forced_break_test_never_holds:
  assumes "B < length (type_v (build cs))" and "is_feasible_breakpoint (build cs) B"
  shows "\<not> penalty (build cs) ! B > real INF_c"
proof -
  have "\<forall>i<length (type_v (build cs)).
      type_v (build cs) ! i \<noteq> PENALTY \<longrightarrow> penalty (build cs) ! i = 0"
    unfolding build_def
    by (rule foldl_apply_call_penalty) (simp_all add: new_paragraph_def aligned_def)
  with assms show ?thesis
    by (auto simp: is_feasible_breakpoint_def INF_c_def split: if_splits)
qed

text \<open>The stored value is the multiple of 256 nearest to the unsigned value.\<close>

lemma minus_INF_stored_nearest:
  "real minus_INF_c = 4294957296 \<and> minus_INF_stored = 256 * 16777177 \<and>
   \<bar>minus_INF_stored - real minus_INF_c\<bar> = 16"
  by (simp add: minus_INF_c_def minus_INF_stored_def INF_c_def)

text \<open>The forced break of \<^verbatim>\<open>make_simple_paragraph\<close> is not a feasible breakpoint at all;
  nor is any other penalty of at least \<open>INF\<close>.\<close>

lemma large_penalty_not_feasible:
  assumes "type_v P ! i = PENALTY" and "real INF_c \<le> penalty P ! i"
  shows "\<not> is_feasible_breakpoint P i"
  using assms by (simp add: is_feasible_breakpoint_def)

lemma wrapped_forced_break_not_feasible:
  assumes "type_v P ! i = PENALTY" and "penalty P ! i = minus_INF_stored"
  shows "\<not> is_feasible_breakpoint P i"
  using assms by (intro large_penalty_not_feasible) (simp_all add: minus_INF_stored_def INF_c_def)

text \<open>C3 (the code departs from the claim): the claim is that at a feasible breakpoint
  with a penalty of at most \<open>-INF\<close> every node that was active before is removed, as
  far as the rule that keeps one node allows. In \<open>par_forced\<close> item 2 is such a
  breakpoint; two nodes are active before it, and the same two nodes are active after
  it.\<close>

theorem forced_break_keeps_active_nodes:
  "is_feasible_breakpoint par_forced 2 \<and> penalty par_forced ! 2 \<le> - real INF_c \<and>
   forward_pass (store_sums par_forced) [5] 1 100 100 2 =
     Inr ([origin, Break 1 1 1 1 1 0 (Some origin)], 2) \<and>
   forward_pass (store_sums par_forced) [5] 1 100 100 3 =
     Inr ([origin, Break 1 1 1 1 1 0 (Some origin)], 3)"
  by (simp add: par_forced_def build_simps run_simps)

subsection \<open>The choice of the final node\<close>

lemma lowest_demerits_min:
  "demerits (lowest_demerits A ns) \<le> demerits A \<and>
   (\<forall>n\<in>set ns. demerits (lowest_demerits A ns) \<le> demerits n) \<and>
   lowest_demerits A ns \<in> insert A (set ns)"
proof (induction ns arbitrary: A)
  case Nil
  then show ?case by simp
next
  case (Cons n ns)
  let ?A' = "if demerits n < demerits A then n else A"
  from Cons.IH [of ?A'] show ?case
    by (auto split: if_splits)
qed

text \<open>With looseness 0 the chosen node is an active node of the lowest demerits.\<close>

lemma select_node_zero:
  assumes "select_node active_nodes 0 = Inr A"
  shows "A \<in> set active_nodes \<and> (\<forall>n\<in>set active_nodes. demerits A \<le> demerits n)"
proof -
  from assms obtain a0 rest where xs: "active_nodes = a0 # rest"
    by (cases active_nodes) (simp_all add: select_node_def)
  with assms have A: "A = lowest_demerits a0 (a0 # rest)"
    by (simp add: select_node_def Let_def)
  from lowest_demerits_min [of a0 "a0 # rest"] show ?thesis
    unfolding xs A by auto
qed

lemma loose_loop_member:
  "loose_loop looseness A best brs d b = Inr (d', Some x) \<Longrightarrow> x \<in> set brs \<or> b = Some x"
proof (induction brs arbitrary: d b)
  case Nil
  then show ?case by simp
next
  case (Cons br brs)
  from Cons.prems obtain d0 b0 where
    "loose_loop looseness A best brs d0 b0 = Inr (d', Some x)" and "b0 = b \<or> b0 = Some br"
    by (auto simp: Let_def split: if_splits sum.splits)
  with Cons.IH [of d0 b0] show ?case by auto
qed

lemma select_node_member:
  assumes "select_node active_nodes looseness = Inr A"
  shows "A \<in> set active_nodes"
proof (cases "looseness = 0")
  case True
  with assms select_node_zero show ?thesis by blast
next
  case False
  from assms obtain a0 rest where xs: "active_nodes = a0 # rest"
    by (cases active_nodes) (simp_all add: select_node_def)
  from assms False xs obtain d where
    "loose_loop looseness (lowest_demerits a0 active_nodes) 0 active_nodes INF_c None = Inr (d, Some A)"
    by (auto simp: select_node_def Let_def split: sum.splits option.splits)
  from loose_loop_member [OF this] show ?thesis by simp
qed

text \<open>C4 (the code departs from the claim): the claim is that with a looseness other
  than 0 the chosen node is the one whose line, minus the line of the node of lowest
  demerits, is closest to the looseness. In \<open>par_two\<close> the active nodes at the end are
  the first breakpoint (line 0, demerits 0) and a node of line 1. With looseness 0 the
  first breakpoint is chosen and the list of breaks is empty. With looseness \<open>-1\<close> the
  differences are 0 and 1, so the first breakpoint is the closest, and the code chooses
  the node of line 1. The claim is also that the selection always yields an active
  node: in \<open>par_costly\<close> the only active node at the end has demerits 12501, which is
  not below the initial value \<open>INF\<close> of \<open>d\<close>, so with looseness \<open>-1\<close> the loop selects
  nothing and the null pointer is dereferenced.\<close>

theorem looseness_picks_farther_node:
  "forward_pass (store_sums par_two) [5] 1 100 100 2 =
     Inr ([origin, Break 1 1 1 1 1 0 (Some origin)], 2) \<and>
   map_sum id breaks (calc_knuth_plass_breaks par_two [5] 0 1 100 100) = Inr [] \<and>
   map_sum id breaks (calc_knuth_plass_breaks par_two [5] (- 1) 1 100 100) =
     Inr [Break 1 1 1 1 1 0 (Some origin)] \<and>
   forward_pass (store_sums par_costly) [5] 1 100 100 5 =
     Inr ([Break 1 1 1 1 12501 0 (Some origin)], 2) \<and>
   calc_knuth_plass_breaks par_costly [5] (- 1) 1 100 100 = Inl NullDeref"
  by (simp add: par_two_def par_costly_def build_simps calc_knuth_plass_breaks_def run_simps
       select_node_def to_unsigned_def)

subsection \<open>The set width of an item\<close>

text \<open>At a negative ratio \<open>r_width\<close> adds \<open>|ratio| \<cdot> shrink\<close> to the width.\<close>

lemma r_width_negative:
  assumes "ratio' < 0" and "i < length (width P)" and "i < length (shrink P)"
  shows "r_width P i ratio' = Inr (width P ! i + \<bar>ratio'\<bar> * shrink P ! i)"
  using assms by (simp add: r_width_def)

text \<open>C5 (the code departs from the claim): the claim is that the widths given by
  \<open>r_width\<close>, a glue being reduced by \<open>|ratio| \<cdot> shrink\<close> at a negative ratio, add up
  to the line length on every returned line. For \<open>par_shrink\<close> and lines of length 13
  the returned breaks are at the items 3 and 7, the first line has ratio \<open>-1/2\<close>;
  \<open>r_width\<close> widens its glue from 2 to 3, and the widths of the items 0, 1 and 2 add
  up to 15.\<close>

theorem r_width_negative_ratio_widens:
  "map_sum id breaks (calc_knuth_plass_breaks par_shrink [13] 0 1 100 100) =
     Inr [Break 1 3 1 1 (153 / 128) (- 1 / 2) (Some origin),
          Break 2 7 2 1 1 0 (Some (Break 1 3 1 1 (153 / 128) (- 1 / 2) (Some origin)))] \<and>
   line_set_width par_shrink 0 3 (- 1 / 2) = 15 \<and>
   r_width par_shrink 1 (- 1 / 2) = Inr 3"
  by (simp add: par_shrink_def build_simps calc_knuth_plass_breaks_def run_simps select_node_def
       line_set_width_def r_width_def)

subsection \<open>The list of active nodes has one node per line and fitness class\<close>

lemma take_insert_index_less:
  "a \<in> set (take (find_insert_index xs n) xs) \<Longrightarrow> line a < line n"
  by (induction xs) (auto split: if_splits)

lemma drop_insert_index_ge:
  "line_sorted xs \<Longrightarrow> a \<in> set (drop (find_insert_index xs n) xs) \<Longrightarrow> line n \<le> line a"
  unfolding line_sorted_def
  by (induction xs) (auto split: if_splits)

text \<open>On the nodes from the insertion index on, the second loop of \<open>add_active_node\<close>
  finds a node of the same line and fitness class exactly when there is one.\<close>

lemma find_match_iff:
  "line_sorted ys \<Longrightarrow> \<forall>a\<in>set ys. line n \<le> line a \<Longrightarrow>
   find_match ys n \<longleftrightarrow> key_of n \<in> key_of ` set ys"
  unfolding line_sorted_def
proof (induction ys)
  case Nil
  then show ?case by simp
next
  case (Cons a as)
  show ?case
  proof (cases "line a = line n")
    case True
    with Cons show ?thesis by (auto simp: key_of_def)
  next
    case False
    with Cons.prems have "line n < line a" by auto
    with Cons.prems have "\<forall>b\<in>set (a # as). line n < line b" by auto
    then have "key_of n \<notin> key_of ` set (a # as)" by (auto simp: key_of_def)
    with False show ?thesis by simp
  qed
qed

lemma line_sorted_take: "line_sorted xs \<Longrightarrow> line_sorted (take i xs)"
  unfolding line_sorted_def by (simp add: take_map [symmetric] sorted_wrt_take)

lemma line_sorted_drop: "line_sorted xs \<Longrightarrow> line_sorted (drop i xs)"
  unfolding line_sorted_def by (simp add: drop_map [symmetric] sorted_wrt_drop)

lemma add_active_node_sorted:
  assumes "line_sorted xs"
  shows "line_sorted (add_active_node xs n)"
proof -
  let ?i = "find_insert_index xs n"
  have t: "sorted (map line (take ?i xs))"
    using line_sorted_take [OF assms] by (simp add: line_sorted_def)
  have d: "sorted (map line (drop ?i xs))"
    using line_sorted_drop [OF assms] by (simp add: line_sorted_def)
  have lt: "\<forall>a\<in>set (take ?i xs). line a < line n"
    by (simp add: take_insert_index_less)
  have ge: "\<forall>a\<in>set (drop ?i xs). line n \<le> line a"
    using drop_insert_index_ge [OF assms] by blast
  have "sorted (map line (take ?i xs @ n # drop ?i xs))"
    using t d lt ge by (fastforce simp: sorted_append)
  with assms show ?thesis
    by (simp add: add_active_node_def Let_def line_sorted_def)
qed

lemma add_active_node_present:
  assumes "line_sorted xs" and "key_of n \<in> key_of ` set xs"
  shows "add_active_node xs n = xs"
proof -
  let ?i = "find_insert_index xs n"
  have "key_of n \<notin> key_of ` set (take ?i xs)"
    using take_insert_index_less [of _ xs n] by (fastforce simp: key_of_def)
  moreover have "set xs = set (take ?i xs) \<union> set (drop ?i xs)"
    by (metis append_take_drop_id set_append)
  ultimately have "key_of n \<in> key_of ` set (drop ?i xs)"
    using assms(2) by auto
  moreover have "find_match (drop ?i xs) n \<longleftrightarrow> key_of n \<in> key_of ` set (drop ?i xs)"
    using find_match_iff [OF line_sorted_drop [OF assms(1)]] drop_insert_index_ge [OF assms(1)]
    by blast
  ultimately show ?thesis
    by (simp add: add_active_node_def)
qed

lemma add_active_node_distinct:
  assumes "line_sorted xs" and "distinct_keys xs"
  shows "distinct_keys (add_active_node xs n)"
proof (cases "find_match (drop (find_insert_index xs n) xs) n")
  case True
  with assms show ?thesis by (simp add: add_active_node_def)
next
  case False
  let ?i = "find_insert_index xs n"
  have "find_match (drop ?i xs) n \<longleftrightarrow> key_of n \<in> key_of ` set (drop ?i xs)"
    using find_match_iff [OF line_sorted_drop [OF assms(1)]] drop_insert_index_ge [OF assms(1)]
    by blast
  with False have nd: "key_of n \<notin> key_of ` set (drop ?i xs)" by simp
  have nt: "key_of n \<notin> key_of ` set (take ?i xs)"
    using take_insert_index_less [of _ xs n] by (fastforce simp: key_of_def)
  have "distinct (map key_of xs)"
    using assms(2) by (simp add: distinct_keys_def)
  then have "distinct (map key_of (take ?i xs @ drop ?i xs))"
    by (simp only: append_take_drop_id)
  then have parts: "distinct (map key_of (take ?i xs)) \<and> distinct (map key_of (drop ?i xs)) \<and>
      set (map key_of (take ?i xs)) \<inter> set (map key_of (drop ?i xs)) = {}"
    by (simp only: map_append distinct_append)
  have d: "distinct (map key_of (take ?i xs @ n # drop ?i xs))"
    using parts nd nt by auto
  have "add_active_node xs n = take ?i xs @ n # drop ?i xs"
    using False by (simp add: add_active_node_def Let_def)
  with d show ?thesis
    by (simp only: distinct_keys_def)
qed

lemma set_erase_node: "set (erase_node xs d) \<subseteq> set xs"
  by (induction xs) auto

lemma erase_node_sorted: "line_sorted xs \<Longrightarrow> line_sorted (erase_node xs d)"
  unfolding line_sorted_def
  using set_erase_node by (induction xs) fastforce+

lemma erase_node_distinct: "distinct_keys xs \<Longrightarrow> distinct_keys (erase_node xs d)"
  unfolding distinct_keys_def
  using set_erase_node by (induction xs) fastforce+

lemma deactivate_inv:
  "line_sorted xs \<and> distinct_keys xs \<Longrightarrow>
   line_sorted (deactivate xs ds) \<and> distinct_keys (deactivate xs ds)"
  by (induction ds arbitrary: xs) (simp_all add: erase_node_sorted erase_node_distinct)

lemma foldl_add_inv:
  "line_sorted xs \<and> distinct_keys xs \<Longrightarrow>
   line_sorted (foldl add_active_node xs as) \<and> distinct_keys (foldl add_active_node xs as)"
  by (induction as arbitrary: xs) (simp_all add: add_active_node_sorted add_active_node_distinct)

lemma forward_pass_inv:
  "forward_pass P ll tol fd fld n = Inr (active_nodes, fresh) \<Longrightarrow>
   line_sorted active_nodes \<and> distinct_keys active_nodes"
proof (induction n arbitrary: active_nodes fresh)
  case 0
  then show ?case by (auto simp: line_sorted_def distinct_keys_def)
next
  case (Suc n)
  from Suc.prems obtain act0 f0 where
    prev: "forward_pass P ll tol fd fld n = Inr (act0, f0)"
    by (auto split: sum.splits)
  from Suc.IH [OF prev] have inv0: "line_sorted act0 \<and> distinct_keys act0" .
  show ?case
  proof (cases "is_feasible_breakpoint P n")
    case False
    with Suc.prems prev inv0 show ?thesis by simp
  next
    case True
    with Suc.prems prev obtain ds as where
      "active_nodes = foldl add_active_node (deactivate act0 ds) as"
      by (auto split: sum.splits)
    with inv0 show ?thesis
      using foldl_add_inv [OF deactivate_inv [OF inv0]] by simp
  qed
qed

text \<open>C8: let \<open>active_nodes\<close> be the list of active nodes after any number \<open>n\<close> of items
  of the forward pass, and let \<open>frontier\<close> be reached from it by a run of the removal
  loop followed by a run of the insertion loop, over any two lists of nodes (the empty
  lists give the list between two items, prefixes of the lists of the driver give every
  point inside its loops). Then no two nodes of \<open>frontier\<close> have the same line and
  fitness class, and \<open>add_active_node\<close> called with a node whose line and fitness
  class occur in \<open>frontier\<close> returns \<open>frontier\<close> unchanged.\<close>

theorem frontier_unique:
  assumes "aligned P" and "n \<le> length (type_v P)"
    and "forward_pass (store_sums P) line_lengths tolerance fitness_demerit flagged_demerit n =
         Inr (active_nodes, fresh)"
    and "frontier = foldl add_active_node (deactivate active_nodes to_deactivate) to_activate"
  shows "distinct_keys frontier \<and>
         (key_of node \<in> key_of ` set frontier \<longrightarrow> add_active_node frontier node = frontier)"
proof -
  have "line_sorted active_nodes \<and> distinct_keys active_nodes"
    using assms(3) by (rule forward_pass_inv)
  then have "line_sorted frontier \<and> distinct_keys frontier"
    unfolding assms(4) by (intro foldl_add_inv deactivate_inv)
  then show ?thesis
    by (simp add: add_active_node_present)
qed

text \<open>The theorem at \<open>par_two\<close>: after its two items the active nodes are the first
  breakpoint and a node of line 1 and fitness class 1, and a second node of line 1 and
  fitness class 1 is dropped.\<close>

theorem frontier_unique_witness:
  "aligned par_two \<and> 2 \<le> length (type_v par_two) \<and>
   forward_pass (store_sums par_two) [5] 1 100 100 2 =
     Inr ([origin, Break 1 1 1 1 1 0 (Some origin)], 2) \<and>
   distinct_keys [origin, Break 1 1 1 1 1 0 (Some origin)] \<and>
   add_active_node [origin, Break 1 1 1 1 1 0 (Some origin)] (Break 7 1 1 1 50 0 (Some origin)) =
     [origin, Break 1 1 1 1 1 0 (Some origin)]"
proof -
  have a: "aligned par_two" by (simp add: par_two_def aligned_build)
  have n: "2 \<le> length (type_v par_two)" by (simp add: par_two_def build_simps)
  have e: "forward_pass (store_sums par_two) [5] 1 100 100 2 =
     Inr ([origin, Break 1 1 1 1 1 0 (Some origin)], 2)"
    by (simp add: par_two_def build_simps run_simps)
  have f: "[origin, Break 1 1 1 1 1 0 (Some origin)] =
     foldl add_active_node (deactivate [origin, Break 1 1 1 1 1 0 (Some origin)] []) []"
    by simp
  from frontier_unique [OF a n e f, of "Break 7 1 1 1 50 0 (Some origin)"] a n e
  show ?thesis by (simp add: key_of_def origin_def)
qed

subsection \<open>The ratios of the returned breaks\<close>

lemma chain_previous: "previous n = Some A \<Longrightarrow> chain n = n # chain A"
  by (cases n) simp

lemma scan_active_ok:
  assumes "scan_active P ll tol fd fld B as ([], [], f) = Inr (de', ac', f')"
    and "\<forall>A\<in>set as. ratios_ok tol A" and "n \<in> set ac'"
  shows "ratios_ok tol n"
proof -
  from scan_active_created [OF assms(1,3)] obtain A where
    "A \<in> set as" and "created_from P ll tol fd fld B A n" by auto
  with assms(2) show ?thesis
    by (auto simp: created_from_def ratios_ok_def chain_previous)
qed

lemma set_deactivate: "set (deactivate xs ds) \<subseteq> set xs"
proof (induction ds arbitrary: xs)
  case Nil
  then show ?case by simp
next
  case (Cons d ds)
  show ?case
  proof (cases "length xs = 1")
    case True
    then show ?thesis by simp
  next
    case False
    then have "deactivate xs (d # ds) = deactivate (erase_node xs d) ds" by simp
    with Cons.IH [of "erase_node xs d"] set_erase_node [of xs d] show ?thesis by auto
  qed
qed

lemma set_add_active_node: "set (add_active_node xs n) \<subseteq> insert n (set xs)"
proof -
  have "set (take (find_insert_index xs n) xs) \<union> set (drop (find_insert_index xs n) xs) = set xs"
    by (metis append_take_drop_id set_append)
  then show ?thesis
    by (auto simp: add_active_node_def Let_def)
qed

lemma set_foldl_add: "set (foldl add_active_node xs as) \<subseteq> set xs \<union> set as"
proof (induction as arbitrary: xs)
  case Nil
  then show ?case by simp
next
  case (Cons a as)
  from Cons.IH [of "add_active_node xs a"] set_add_active_node [of xs a]
  show ?case by auto
qed

text \<open>One item of the forward pass: every active node was active before or has been
  created at this item from a node that was active before.\<close>

lemma forward_pass_step:
  assumes "forward_pass P ll tol fd fld (Suc n) = Inr (active_nodes, fresh)"
  obtains act0 f0 where "forward_pass P ll tol fd fld n = Inr (act0, f0)"
    and "\<forall>a\<in>set active_nodes. a \<in> set act0 \<or> (\<exists>A\<in>set act0. created_from P ll tol fd fld n A a)"
proof -
  from assms obtain act0 f0 where
    prev: "forward_pass P ll tol fd fld n = Inr (act0, f0)"
    by (auto split: sum.splits)
  have "\<forall>a\<in>set active_nodes. a \<in> set act0 \<or> (\<exists>A\<in>set act0. created_from P ll tol fd fld n A a)"
  proof (cases "is_feasible_breakpoint P n")
    case False
    with assms prev show ?thesis by simp
  next
    case True
    with assms prev obtain ds as f' where
      sc: "scan_active P ll tol fd fld n act0 ([], [], f0) = Inr (ds, as, f')" and
      act: "active_nodes = foldl add_active_node (deactivate act0 ds) as"
      by (auto split: sum.splits)
    have "set active_nodes \<subseteq> set act0 \<union> set as"
      unfolding act using set_foldl_add [of "deactivate act0 ds" as] set_deactivate [of act0 ds]
      by blast
    moreover have "\<forall>a\<in>set as. \<exists>A\<in>set act0. created_from P ll tol fd fld n A a"
      using scan_active_created [OF sc] by auto
    ultimately show ?thesis by blast
  qed
  with prev show ?thesis by (rule that)
qed

lemma forward_pass_ok:
  "forward_pass P ll tol fd fld n = Inr (active_nodes, fresh) \<Longrightarrow>
   \<forall>A\<in>set active_nodes. ratios_ok tol A"
proof (induction n arbitrary: active_nodes fresh)
  case 0
  then show ?case by (auto simp: ratios_ok_def origin_def)
next
  case (Suc n)
  from Suc.prems obtain act0 f0 where
    prev: "forward_pass P ll tol fd fld n = Inr (act0, f0)" and
    step: "\<forall>a\<in>set active_nodes. a \<in> set act0 \<or> (\<exists>A\<in>set act0. created_from P ll tol fd fld n A a)"
    by (rule forward_pass_step)
  from Suc.IH [OF prev] have ok0: "\<forall>A\<in>set act0. ratios_ok tol A" .
  show ?case
  proof
    fix a assume "a \<in> set active_nodes"
    with step ok0 show "ratios_ok tol a"
      by (auto simp: created_from_def ratios_ok_def chain_previous)
  qed
qed

text \<open>Positions and lines stay below the number of items: the reads at
  \<^verbatim>\<open>A->position\<close> are in range, and \<^verbatim>\<open>A->line + 1\<close> does not wrap.\<close>

lemma forward_pass_bounds:
  "forward_pass P ll tol fd fld n = Inr (active_nodes, fresh) \<Longrightarrow>
   \<forall>a\<in>set active_nodes. (position a = 0 \<or> position a < n) \<and> line a \<le> n"
proof (induction n arbitrary: active_nodes fresh)
  case 0
  then show ?case by (auto simp: origin_def)
next
  case (Suc n)
  from Suc.prems obtain act0 f0 where
    prev: "forward_pass P ll tol fd fld n = Inr (act0, f0)" and
    step: "\<forall>a\<in>set active_nodes. a \<in> set act0 \<or> (\<exists>A\<in>set act0. created_from P ll tol fd fld n A a)"
    by (rule forward_pass_step)
  from Suc.IH [OF prev] have b0: "\<forall>a\<in>set act0. (position a = 0 \<or> position a < n) \<and> line a \<le> n" .
  show ?case
  proof
    fix a assume "a \<in> set active_nodes"
    with step b0 show "(position a = 0 \<or> position a < Suc n) \<and> line a \<le> Suc n"
      by (fastforce simp: created_from_def)
  qed
qed

text \<open>C7: for every paragraph with parallel vectors (in particular one that ends with
  the three closing items) and every list of line lengths, looseness and tolerance, if
  \<open>calc_knuth_plass_breaks\<close> returns, the ratio of each returned break is at least
  \<open>-1\<close> and at most the tolerance.\<close>

theorem returned_ratios_in_range:
  assumes "aligned P"
    and "calc_knuth_plass_breaks P line_lengths looseness tolerance fitness_demerit flagged_demerit
         = Inr P'"
  shows "\<forall>b\<in>set (breaks P'). - 1 \<le> ratio b \<and> ratio b \<le> tolerance"
proof -
  from assms(2) obtain active_nodes fresh A where
    fp: "forward_pass (store_sums P) line_lengths tolerance fitness_demerit flagged_demerit
           (length (type_v P)) = Inr (active_nodes, fresh)" and
    sel: "select_node active_nodes looseness = Inr A" and
    res: "breaks P' = rev (chain A)"
    by (auto simp: calc_knuth_plass_breaks_def Let_def split: sum.splits)
  from forward_pass_ok [OF fp] select_node_member [OF sel] have "ratios_ok tolerance A"
    by blast
  then show ?thesis
    unfolding res by (simp add: ratios_ok_def list_all_iff)
qed

text \<open>The theorem at \<open>par_abcd\<close> with lines of length 2: one break is returned, at the
  glue between the two words, of ratio 0.\<close>

theorem returned_ratios_witness:
  "aligned par_abcd \<and>
   map_sum id breaks (calc_knuth_plass_breaks par_abcd [2] 0 1 100 100) =
     Inr [Break 1 2 1 1 1 0 (Some origin)] \<and>
   - 1 \<le> ratio (Break 1 2 1 1 1 0 (Some origin)) \<and> ratio (Break 1 2 1 1 1 0 (Some origin)) \<le> 1"
proof -
  have a: "aligned par_abcd" by (simp add: par_abcd_def aligned_build)
  have e: "calc_knuth_plass_breaks par_abcd [2] 0 1 100 100 =
      Inr ((store_sums par_abcd) \<lparr> breaks := [Break 1 2 1 1 1 0 (Some origin)] \<rparr>)"
    by (simp add: par_abcd_def build_simps calc_knuth_plass_breaks_def run_simps select_node_def)
  from returned_ratios_in_range [OF a e] a show ?thesis
    by (simp add: e)
qed

subsection \<open>The list of active nodes is never empty\<close>

lemma store_sums_fields [simp]:
  "type_v (store_sums P) = type_v P" "width (store_sums P) = width P"
  "penalty (store_sums P) = penalty P" "flagged (store_sums P) = flagged P"
  by (simp_all add: store_sums_def split: prod.splits)

lemma is_feasible_store_sums [simp]:
  "is_feasible_breakpoint (store_sums P) B = is_feasible_breakpoint P B"
  by (simp add: is_feasible_breakpoint_def)

lemma ratio_defined:
  assumes "aligned P" and "B < length (type_v P)" and "line_lengths \<noteq> []"
  shows "\<exists>r. compute_adjustment_ratio (store_sums P) pos1 B l line_lengths = Inr r"
  using assms by (simp add: compute_adjustment_ratio_def aligned_def)

lemma ratio_empty_lengths:
  assumes "aligned P" and "B < length (type_v P)"
  shows "compute_adjustment_ratio (store_sums P) pos1 B l [] = Inl BackOnEmpty"
  using assms by (simp add: compute_adjustment_ratio_def aligned_def)

lemma select_origin: "select_node [origin] looseness = Inr origin"
  by (simp add: select_node_def Let_def origin_def to_unsigned_def INF_c_def)

lemma chain_origin: "chain origin = []"
  by (simp add: origin_def)

text \<open>The removal loop leaves a non-empty list non-empty, and so does the insertion.\<close>

lemma erase_node_length: "length xs - 1 \<le> length (erase_node xs d)"
  by (induction xs) auto

lemma deactivate_nonempty: "xs \<noteq> [] \<Longrightarrow> deactivate xs ds \<noteq> []"
proof (induction ds arbitrary: xs)
  case Nil
  then show ?case by simp
next
  case (Cons d ds)
  show ?case
  proof (cases "length xs = 1")
    case True
    with Cons.prems show ?thesis by simp
  next
    case False
    from Cons.prems have "length xs \<noteq> 0" by simp
    with False have "2 \<le> length xs" by arith
    with erase_node_length [of xs d] have "erase_node xs d \<noteq> []" by auto
    with False Cons.IH show ?thesis by simp
  qed
qed

lemma add_active_node_nonempty: "xs \<noteq> [] \<Longrightarrow> add_active_node xs n \<noteq> []"
  by (simp add: add_active_node_def Let_def)

lemma foldl_add_nonempty: "xs \<noteq> [] \<Longrightarrow> foldl add_active_node xs as \<noteq> []"
  by (induction as arbitrary: xs) (simp_all add: add_active_node_nonempty)

lemma forward_pass_nonempty:
  "forward_pass P ll tol fd fld n = Inr (active_nodes, fresh) \<Longrightarrow> active_nodes \<noteq> []"
proof (induction n arbitrary: active_nodes fresh)
  case 0
  then show ?case by auto
next
  case (Suc n)
  from Suc.prems obtain act0 f0 where
    prev: "forward_pass P ll tol fd fld n = Inr (act0, f0)"
    by (auto split: sum.splits)
  from Suc.IH [OF prev] have ne: "act0 \<noteq> []" .
  show ?case
  proof (cases "is_feasible_breakpoint P n")
    case False
    with Suc.prems prev ne show ?thesis by simp
  next
    case True
    with Suc.prems prev obtain ds as where
      "active_nodes = foldl add_active_node (deactivate act0 ds) as"
      by (auto split: sum.splits)
    with ne show ?thesis
      by (simp add: foldl_add_nonempty deactivate_nonempty)
  qed
qed

lemma loose_loop_error:
  "loose_loop looseness A best brs d b = Inl e \<Longrightarrow> e = FloatToUnsigned"
proof (induction brs arbitrary: d b)
  case Nil
  then show ?case by simp
next
  case (Cons br brs)
  from Cons.prems
  have "e = FloatToUnsigned \<or> (\<exists>d0 b0. loose_loop looseness A best brs d0 b0 = Inl e)"
    by (auto simp: Let_def to_unsigned_def split: if_splits sum.splits)
  with Cons.IH show ?case by auto
qed

text \<open>\<^verbatim>\<open>active_nodes.at(0)\<close> never throws.\<close>

lemma calc_never_out_of_range:
  assumes "aligned P"
  shows "calc_knuth_plass_breaks P line_lengths looseness tolerance fitness_demerit flagged_demerit
         \<noteq> Inl OutOfRange"
proof
  assume err: "calc_knuth_plass_breaks P line_lengths looseness tolerance fitness_demerit
      flagged_demerit = Inl OutOfRange"
  have no_scan: "scan_active (store_sums P) ll tol fd fld B as st \<noteq> Inl OutOfRange"
    if "B < length (type_v P)" for ll tol fd fld B as st
  proof (induction as arbitrary: st)
    case Nil
    then show ?case by simp
  next
    case (Cons A as)
    obtain de ac f where st: "st = (de, ac, f)" by (cases st) auto
    have "compute_adjustment_ratio (store_sums P) (position A) B (line A) ll \<noteq> Inl OutOfRange"
      using assms that by (simp add: compute_adjustment_ratio_def aligned_def)
    with Cons.IH show ?case
      unfolding st by (auto simp: Let_def split: sum.splits)
  qed
  have no_fp: "n \<le> length (type_v P) \<Longrightarrow>
      forward_pass (store_sums P) ll tol fd fld n \<noteq> Inl OutOfRange" for ll tol fd fld n
  proof (induction n)
    case 0
    then show ?case by simp
  next
    case (Suc n)
    then have "n < length (type_v P)" by simp
    from no_scan [OF this] Suc show ?case
      by (auto split: sum.splits)
  qed
  from err no_fp [of "length (type_v P)" line_lengths tolerance fitness_demerit flagged_demerit]
  obtain active_nodes fresh where
    fp: "forward_pass (store_sums P) line_lengths tolerance fitness_demerit flagged_demerit
           (length (type_v P)) = Inr (active_nodes, fresh)" and
    sel: "select_node active_nodes looseness = Inl OutOfRange"
    by (auto simp: calc_knuth_plass_breaks_def Let_def split: sum.splits)
  from forward_pass_nonempty [OF fp] obtain a0 rest where "active_nodes = a0 # rest"
    by (cases active_nodes) auto
  with sel show False
    by (auto simp: select_node_def Let_def to_unsigned_def split: if_splits sum.splits option.splits
        dest!: loose_loop_error)
qed

text \<open>When no line from the start of the paragraph is feasible, the first breakpoint
  stays the only active node.\<close>

lemma forward_pass_origin_only:
  assumes "aligned P" and "line_lengths \<noteq> []"
    and "\<forall>B<length (type_v P). is_feasible_breakpoint P B \<longrightarrow>
           (\<forall>r. compute_adjustment_ratio (store_sums P) 0 B 0 line_lengths = Inr r \<longrightarrow>
                \<not> (- 1 \<le> r \<and> r \<le> tolerance))"
    and "n \<le> length (type_v P)"
  shows "forward_pass (store_sums P) line_lengths tolerance fd fld n = Inr ([origin], 1)"
  using assms(4)
proof (induction n)
  case 0
  then show ?case by simp
next
  case (Suc n)
  then have prev: "forward_pass (store_sums P) line_lengths tolerance fd fld n = Inr ([origin], 1)"
    and n: "n < length (type_v P)" by simp_all
  show ?case
  proof (cases "is_feasible_breakpoint P n")
    case False
    with prev show ?thesis by simp
  next
    case True
    from ratio_defined [OF assms(1) n assms(2)] obtain r where
      r: "compute_adjustment_ratio (store_sums P) 0 n 0 line_lengths = Inr r" by blast
    with assms(3) n True have nr: "\<not> (- 1 \<le> r \<and> r \<le> tolerance)" by blast
    have "\<exists>ds. scan_active (store_sums P) line_lengths tolerance fd fld n [origin] ([], [], 1)
            = Inr (ds, [], 1)"
      using r nr by (auto simp: origin_def Let_def)
    then obtain ds where
      sc: "scan_active (store_sums P) line_lengths tolerance fd fld n [origin] ([], [], 1)
            = Inr (ds, [], 1)" ..
    have "deactivate [origin] ds = [origin]" by (cases ds) simp_all
    with prev True sc show ?thesis by simp
  qed
qed

text \<open>C6, the claim as stated fails: the claim is that \<open>solve\<close> fails with
  \<open>NoFeasibleBreak\<close> and returns no break list when no feasible break survives. For
  \<open>par_wide\<close> (two words of width 10) and lines of length 3 no node is ever created,
  the first breakpoint is the only active node at the end, and the result is a break
  list, the empty one.\<close>

theorem wide_words_return_empty_list:
  "forward_pass (store_sums par_wide) [3] 1 100 100 6 = Inr ([origin], 1) \<and>
   map_sum id breaks (calc_knuth_plass_breaks par_wide [3] 0 1 100 100) = Inr []"
  by (simp add: par_wide_def build_simps calc_knuth_plass_breaks_def run_simps select_node_def)

text \<open>C6, amended: the removal loop never removes the last active node, so the list of
  active nodes is never empty and no failure of this kind exists. For every paragraph
  with parallel vectors, every non-empty list of line lengths and every looseness, if
  no line from the start of the paragraph to a feasible breakpoint has a ratio between
  \<open>-1\<close> and the tolerance, then \<open>calc_knuth_plass_breaks\<close> returns normally, with the
  empty list of breaks.\<close>

theorem no_feasible_line_empty_result:
  assumes "aligned P" and "line_lengths \<noteq> []"
    and "\<forall>B<length (type_v P). is_feasible_breakpoint P B \<longrightarrow>
           (\<forall>r. compute_adjustment_ratio (store_sums P) 0 B 0 line_lengths = Inr r \<longrightarrow>
                \<not> (- 1 \<le> r \<and> r \<le> tolerance))"
  shows "map_sum id breaks
           (calc_knuth_plass_breaks P line_lengths looseness tolerance fitness_demerit flagged_demerit)
         = Inr []"
  using forward_pass_origin_only [OF assms order_refl]
  by (simp add: calc_knuth_plass_breaks_def Let_def select_origin chain_origin)

text \<open>The theorem at \<open>par_wide\<close> with lines of length 3, tolerance 1 and looseness 1.\<close>

theorem no_feasible_line_witness:
  "aligned par_wide \<and> [3::real] \<noteq> [] \<and>
   map_sum id breaks (calc_knuth_plass_breaks par_wide [3] 1 1 100 100) = Inr []"
proof -
  have a: "aligned par_wide" by (simp add: par_wide_def aligned_build)
  have h: "\<forall>B<length (type_v par_wide). is_feasible_breakpoint par_wide B \<longrightarrow>
           (\<forall>r. compute_adjustment_ratio (store_sums par_wide) 0 B 0 [3] = Inr r \<longrightarrow>
                \<not> (- 1 \<le> r \<and> r \<le> 1))"
    by (simp add: par_wide_def build_simps run_simps less_Suc_eq)
  from no_feasible_line_empty_result [OF a _ h, of 1 100 100] a show ?thesis by simp
qed

subsection \<open>An empty list of line lengths\<close>

lemma forward_pass_no_breakpoint:
  assumes "\<forall>B<length (type_v P). \<not> is_feasible_breakpoint P B" and "n \<le> length (type_v P)"
  shows "forward_pass (store_sums P) line_lengths tolerance fd fld n = Inr ([origin], 1)"
  using assms(2)
proof (induction n)
  case 0
  then show ?case by simp
next
  case (Suc n)
  with assms(1) show ?case by simp
qed

lemma forward_pass_error_stays:
  "forward_pass P ll tol fd fld n = Inl e \<Longrightarrow> n \<le> k \<Longrightarrow> forward_pass P ll tol fd fld k = Inl e"
  by (induction k) (auto simp: le_Suc_eq)

text \<open>With a feasible breakpoint the first call of \<open>compute_adjustment_ratio\<close> reaches
  \<^verbatim>\<open>line_lengths->back()\<close> on the empty vector.\<close>

lemma empty_line_lengths_back:
  assumes "aligned P" and "B < length (type_v P)" and "is_feasible_breakpoint P B"
  shows "calc_knuth_plass_breaks P [] looseness tolerance fitness_demerit flagged_demerit
         = Inl BackOnEmpty"
proof -
  define B0 where "B0 = (LEAST B. B < length (type_v P) \<and> is_feasible_breakpoint P B)"
  have B0: "B0 < length (type_v P) \<and> is_feasible_breakpoint P B0"
    unfolding B0_def using assms(2,3) by (rule_tac LeastI [of _ B]) simp
  have least: "\<And>k. k < B0 \<Longrightarrow> \<not> is_feasible_breakpoint P k"
    using not_less_Least [of _ "\<lambda>B. B < length (type_v P) \<and> is_feasible_breakpoint P B"] B0
    unfolding B0_def by (metis (no_types, lifting) less_trans)
  have pre: "k \<le> B0 \<Longrightarrow> forward_pass (store_sums P) [] tolerance fitness_demerit flagged_demerit k
      = Inr ([origin], 1)" for k
  proof (induction k)
    case 0
    then show ?case by simp
  next
    case (Suc k)
    with least [of k] show ?case by simp
  qed
  have "forward_pass (store_sums P) [] tolerance fitness_demerit flagged_demerit (Suc B0)
      = Inl BackOnEmpty"
    using pre [of B0] B0 ratio_empty_lengths [OF assms(1), of B0]
    by (simp add: origin_def)
  from forward_pass_error_stays [OF this, of "length (type_v P)"] B0
  show ?thesis
    by (simp add: calc_knuth_plass_breaks_def Let_def)
qed

text \<open>Without a feasible breakpoint no line is measured and the list of line lengths
  is never read: the result is the empty list of breaks, whatever the list of line
  lengths is.\<close>

lemma no_breakpoint_empty_result:
  assumes "\<forall>B<length (type_v P). \<not> is_feasible_breakpoint P B"
  shows "map_sum id breaks
           (calc_knuth_plass_breaks P line_lengths looseness tolerance fitness_demerit flagged_demerit)
         = Inr []"
  using forward_pass_no_breakpoint [OF assms order_refl]
  by (simp add: calc_knuth_plass_breaks_def Let_def select_origin chain_origin)

text \<open>C9 (the code departs from the claim): the claim is that with an empty list of
  line lengths \<open>solve\<close> reports \<open>EmptyLineLengths\<close> and does not read past the
  sequence. In \<open>par_two\<close> (a box and a glue) item 1 is a feasible breakpoint; with the
  empty list of line lengths the test \<^verbatim>\<open>line < line_lengths->size()\<close> fails for the first
  line measured, and the code evaluates \<^verbatim>\<open>line_lengths->back()\<close> on the empty vector,
  where the other branch uses the checked \<^verbatim>\<open>at(line)\<close>.\<close>

theorem empty_line_lengths_reads_back:
  "is_feasible_breakpoint par_two 1 \<and>
   compute_adjustment_ratio (store_sums par_two) 0 1 0 [] = Inl BackOnEmpty \<and>
   calc_knuth_plass_breaks par_two [] 0 1 100 100 = Inl BackOnEmpty"
  by (simp add: par_two_def build_simps calc_knuth_plass_breaks_def run_simps)

end
